theory Spec2Isabelle
  imports Complex_Main
begin

section \<open>JavaScript numbers\<close>

text \<open>
  Every metric of the application is a TypeScript \<open>number\<close>: an IEEE 754 binary64
  value. A finite value is represented by the rational it denotes; \<open>Fin 0\<close> is
  \<open>+0\<close> and \<open>NegZero\<close> is \<open>-0\<close>. The arithmetic operations compute the exact
  rational result and round it to the nearest binary64 value, ties to even, with
  overflow to an infinity and gradual underflow, as the language prescribes.
\<close>

datatype jsnum = Fin rat | NegZero | PosInf | NegInf | NaN

function ilog :: "int \<Rightarrow> int \<Rightarrow> int" where
  "ilog b n = (if b < 2 \<or> n < b then 0 else 1 + ilog b (n div b))"
  by pat_completeness auto
termination
  by (relation "measure (\<lambda>(b, n). nat n)") (auto simp: int_div_less_self)

declare ilog.simps [simp del]

text \<open>Powers with an integer exponent, computed by squaring: \<open>bpow b e\<close> is
  \<open>b ^ e\<close> for \<open>e \<ge> 0\<close>.\<close>

function bpow :: "rat \<Rightarrow> int \<Rightarrow> rat" where
  "bpow b e =
     (if e \<le> 0 then 1
      else if even e then bpow b (e div 2) * bpow b (e div 2)
      else b * (bpow b (e div 2) * bpow b (e div 2)))"
  by pat_completeness auto
termination
  by (relation "measure (\<lambda>(b, e). nat e)") auto

declare bpow.simps [simp del]

definition ipow :: "rat \<Rightarrow> int \<Rightarrow> rat" where
  "ipow b e = (if 0 \<le> e then bpow b e else 1 / bpow b (- e))"

text \<open>\<open>expo b a\<close> is the integer \<open>e\<close> with \<open>b ^ e \<le> a < b ^ (e + 1)\<close>, for \<open>a > 0\<close>.\<close>

definition expo :: "int \<Rightarrow> rat \<Rightarrow> int" where
  "expo b a = (case quotient_of a of (p, q) \<Rightarrow>
     (let e0 = ilog b p - ilog b q
      in if ipow (of_int b) e0 \<le> a then e0 else e0 - 1))"

definition roundHalfEven :: "rat \<Rightarrow> int" where
  "roundHalfEven y = (let n = \<lfloor>y\<rfloor>; r = y - of_int n
     in if r < 1 / 2 then n else if 1 / 2 < r then n + 1 else if even n then n else n + 1)"

text \<open>The spacing of binary64 values around \<open>a > 0\<close>: 53 significant bits, and
  \<open>2 ^ - 1074\<close> below the smallest normal value \<open>2 ^ - 1022\<close>.\<close>

definition ulpOf :: "rat \<Rightarrow> rat" where
  "ulpOf a = ipow 2 (max (expo 2 a) (- 1022) - 52)"

definition zero :: "bool \<Rightarrow> jsnum" where
  "zero neg = (if neg then NegZero else Fin 0)"

definition infinity :: "bool \<Rightarrow> jsnum" where
  "infinity neg = (if neg then NegInf else PosInf)"

text \<open>\<open>fl neg a\<close> rounds the magnitude \<open>a \<ge> 0\<close> of an exact result whose sign bit is
  \<open>neg\<close>.\<close>

definition fl :: "bool \<Rightarrow> rat \<Rightarrow> jsnum" where
  "fl neg a =
     (if a = 0 then zero neg
      else let u = ulpOf a; r = of_int (roundHalfEven (a / u)) * u
           in if ipow 2 1024 \<le> r then infinity neg
              else if r = 0 then zero neg
              else Fin (if neg then - r else r))"

text \<open>A numeric literal of the source denotes the nearest binary64 value.\<close>

definition num :: "rat \<Rightarrow> jsnum" where
  "num q = fl (q < 0) \<bar>q\<bar>"

definition isFinite :: "jsnum \<Rightarrow> bool" where
  "isFinite x = (case x of Fin q \<Rightarrow> True | NegZero \<Rightarrow> True | _ \<Rightarrow> False)"

definition val :: "jsnum \<Rightarrow> rat" where
  "val x = (case x of Fin q \<Rightarrow> q | _ \<Rightarrow> 0)"

definition signBit :: "jsnum \<Rightarrow> bool" where
  "signBit x = (case x of Fin q \<Rightarrow> q < 0 | NegZero \<Rightarrow> True | NegInf \<Rightarrow> True | _ \<Rightarrow> False)"

definition js_neg :: "jsnum \<Rightarrow> jsnum" where
  "js_neg x = (case x of Fin q \<Rightarrow> (if q = 0 then NegZero else Fin (- q))
     | NegZero \<Rightarrow> Fin 0 | PosInf \<Rightarrow> NegInf | NegInf \<Rightarrow> PosInf | NaN \<Rightarrow> NaN)"

definition js_add :: "jsnum \<Rightarrow> jsnum \<Rightarrow> jsnum" where
  "js_add x y =
     (if x = NaN \<or> y = NaN then NaN
      else if \<not> isFinite x \<and> \<not> isFinite y then (if x = y then x else NaN)
      else if \<not> isFinite x then x
      else if \<not> isFinite y then y
      else if val x + val y = 0 then (if x = NegZero \<and> y = NegZero then NegZero else Fin 0)
      else num (val x + val y))"

definition js_sub :: "jsnum \<Rightarrow> jsnum \<Rightarrow> jsnum" where
  "js_sub x y = js_add x (js_neg y)"

definition js_mul :: "jsnum \<Rightarrow> jsnum \<Rightarrow> jsnum" where
  "js_mul x y =
     (if x = NaN \<or> y = NaN then NaN
      else if \<not> isFinite x \<or> \<not> isFinite y then
        (if (isFinite x \<and> val x = 0) \<or> (isFinite y \<and> val y = 0) then NaN
         else infinity (signBit x \<noteq> signBit y))
      else fl (signBit x \<noteq> signBit y) (\<bar>val x\<bar> * \<bar>val y\<bar>))"

definition js_div :: "jsnum \<Rightarrow> jsnum \<Rightarrow> jsnum" where
  "js_div x y =
     (if x = NaN \<or> y = NaN then NaN
      else if \<not> isFinite x then
        (if \<not> isFinite y then NaN else infinity (signBit x \<noteq> signBit y))
      else if \<not> isFinite y then zero (signBit x \<noteq> signBit y)
      else if val y = 0 then
        (if val x = 0 then NaN else infinity (signBit x \<noteq> signBit y))
      else fl (signBit x \<noteq> signBit y) (\<bar>val x\<bar> / \<bar>val y\<bar>))"

text \<open>The relational operators; every comparison with \<open>NaN\<close> is false, and the two
  zeros are equal.\<close>

definition js_lt :: "jsnum \<Rightarrow> jsnum \<Rightarrow> bool" where
  "js_lt x y =
     (x \<noteq> NaN \<and> y \<noteq> NaN \<and>
      (if x = NegInf then y \<noteq> NegInf
       else if y = PosInf then x \<noteq> PosInf
       else if x = PosInf \<or> y = NegInf then False
       else val x < val y))"

definition js_gt :: "jsnum \<Rightarrow> jsnum \<Rightarrow> bool" where
  "js_gt x y = js_lt y x"

definition js_le :: "jsnum \<Rightarrow> jsnum \<Rightarrow> bool" where
  "js_le x y = (x \<noteq> NaN \<and> y \<noteq> NaN \<and> \<not> js_lt y x)"

definition js_ge :: "jsnum \<Rightarrow> jsnum \<Rightarrow> bool" where
  "js_ge x y = (x \<noteq> NaN \<and> y \<noteq> NaN \<and> \<not> js_lt x y)"

definition js_strict_eq :: "jsnum \<Rightarrow> jsnum \<Rightarrow> bool" where
  "js_strict_eq x y =
     (x \<noteq> NaN \<and> y \<noteq> NaN \<and>
      (if isFinite x \<and> isFinite y then val x = val y else x = y))"

subsection \<open>Number to string\<close>

definition digitChar :: "int \<Rightarrow> char" where
  "digitChar d = ''0123456789'' ! nat d"

function digitsOf :: "int \<Rightarrow> string" where
  "digitsOf n = (if n < 10 then [digitChar n] else digitsOf (n div 10) @ [digitChar (n mod 10)])"
  by pat_completeness auto
termination
  by (relation "measure nat") auto

declare digitsOf.simps [simp del]

text \<open>
  \<open>Number::toString\<close> writes a finite nonzero value with the digits \<open>s\<close> of the
  shortest decimal \<open>s * 10 ^ (n - k)\<close>, \<open>k\<close> digits long, that reads back as the same
  value; among several of that length, the one closest to the value, an even \<open>s\<close>
  on a tie. \<open>candidates a k\<close> lists the pairs \<open>(n, s)\<close> of length \<open>k\<close>.
\<close>

definition candidates :: "rat \<Rightarrow> int \<Rightarrow> (int \<times> int) list" where
  "candidates a k =
     (let n0 = expo 10 a + 1
      in filter (\<lambda>(n, s). 10 ^ nat (k - 1) \<le> s \<and> s < 10 ^ nat k \<and>
                          num (of_int s * ipow 10 (n - k)) = Fin a)
           (concat (map (\<lambda>n. let s = \<lfloor>a / ipow 10 (n - k)\<rfloor> in [(n, s), (n, s + 1)])
                        [n0, n0 + 1])))"

definition dist :: "rat \<Rightarrow> int \<Rightarrow> int \<times> int \<Rightarrow> rat" where
  "dist a k c = (case c of (n, s) \<Rightarrow> \<bar>of_int s * ipow 10 (n - k) - a\<bar>)"

fun best :: "rat \<Rightarrow> int \<Rightarrow> (int \<times> int) \<Rightarrow> (int \<times> int) list \<Rightarrow> int \<times> int" where
  "best a k c [] = c"
| "best a k c (d # ds) =
     (if dist a k d < dist a k c \<or> (dist a k d = dist a k c \<and> even (snd d) \<and> odd (snd c))
      then best a k d ds else best a k c ds)"

text \<open>Seventeen digits identify every binary64 value; the search is cut off after
  \<open>fuel\<close> lengths and then takes the leading digits of the value.\<close>

fun shortest :: "rat \<Rightarrow> nat \<Rightarrow> int \<Rightarrow> int \<times> int \<times> int" where
  "shortest a 0 k = (expo 10 a + 1, k, \<lfloor>a / ipow 10 (expo 10 a + 1 - k)\<rfloor>)"
| "shortest a (Suc fuel) k =
     (case candidates a k of
        [] \<Rightarrow> shortest a fuel (k + 1)
      | c # cs \<Rightarrow> (case best a k c cs of (n, s) \<Rightarrow> (n, k, s)))"

definition numberToString :: "jsnum \<Rightarrow> string" where
  "numberToString x =
     (case x of NaN \<Rightarrow> ''NaN'' | PosInf \<Rightarrow> ''Infinity'' | NegInf \<Rightarrow> ''-Infinity''
      | NegZero \<Rightarrow> ''0''
      | Fin q \<Rightarrow>
          if q = 0 then ''0''
          else (if q < 0 then ''-'' else '''') @
            (case shortest \<bar>q\<bar> 20 1 of (n, k, s) \<Rightarrow>
               let ds = digitsOf s in
               if - 5 \<le> n \<and> n \<le> 21 then
                 (if k \<le> n then ds @ replicate (nat (n - k)) CHR ''0''
                  else if 0 < n then take (nat n) ds @ ''.'' @ drop (nat n) ds
                  else ''0.'' @ replicate (nat (- n)) CHR ''0'' @ ds)
               else
                 (if k = 1 then ds else take 1 ds @ ''.'' @ drop 1 ds)
                 @ ''e'' @ (if n - 1 < 0 then ''-'' else ''+'') @ digitsOf \<bar>n - 1\<bar>))"

text \<open>
  \<open>Number.prototype.toFixed(f)\<close>, for \<open>0 \<le> f \<le> 100\<close> (the application calls it
  with \<open>f = 1\<close> only): a value that is not finite is written by \<open>Number::toString\<close>;
  the sign is written when the value is below zero, so \<open>-0\<close> has none; a magnitude
  of \<open>10 ^ 21\<close> or more is written by \<open>Number::toString\<close>; otherwise the integer
  \<open>n\<close> with \<open>n / 10 ^ f\<close> nearest to the magnitude, the larger one on a tie, is
  written with \<open>f\<close> digits after the point.
\<close>

definition toFixed :: "nat \<Rightarrow> jsnum \<Rightarrow> string" where
  "toFixed f x =
     (if \<not> isFinite x then numberToString x
      else (if val x < 0 then ''-'' else '''') @
        (if 10 ^ 21 \<le> \<bar>val x\<bar> then numberToString (Fin \<bar>val x\<bar>)
         else let n = \<lfloor>\<bar>val x\<bar> * 10 ^ f + 1 / 2\<rfloor>;
                  m = digitsOf n
              in if f = 0 then m
                 else let m' = (if length m \<le> f
                                then replicate (f + 1 - length m) CHR ''0'' @ m else m);
                          k = length m'
                      in take (k - f) m' @ ''.'' @ drop (k - f) m'))"

section \<open>The result record\<close>

record WordFrequencyEntry =
  word :: string
  count :: jsnum

record SentenceStructure =
  simple :: jsnum
  compound :: jsnum
  complex :: jsnum
  compoundComplex :: jsnum

record AnalysisResult =
  wordCount :: jsnum
  paragraphCount :: jsnum
  sentenceCount :: jsnum
  avgSentenceLength :: jsnum
  fleschReadingEase :: jsnum
  fleschKincaidGrade :: jsnum
  gunningFog :: jsnum
  smogIndex :: jsnum
  daleChall :: jsnum
  lexicalDensity :: jsnum
  lexicalDiversity :: jsnum
  wordFrequency :: "WordFrequencyEntry list"
  passiveVoiceCount :: jsnum
  sentenceStructure :: SentenceStructure
  weakWordCount :: jsnum

record AnalysisComparison =
  original :: AnalysisResult
  revised :: AnalysisResult

section \<open>The comparison handler\<close>

subsection \<open>Percentage deltas\<close>

definition getDelta :: "jsnum \<Rightarrow> jsnum \<Rightarrow> string" where
  "getDelta orig revd =
     (if js_strict_eq orig (Fin 0) then (if js_gt revd (Fin 0) then ''+100.0%'' else ''0.0%'')
      else let change = js_mul (js_div (js_sub revd orig) orig) (Fin 100)
           in (if js_ge change (Fin 0) then ''+'' else '''') @ toFixed 1 change @ ''%'')"

subsection \<open>The prompt\<close>

definition nl :: char where
  "nl = CHR 0x0A"

definition buildPrompt :: "AnalysisComparison \<Rightarrow> string \<Rightarrow> string \<Rightarrow> string" where
  \<open>buildPrompt cmp oText rText =
      [nl] @
      ''        You are an expert editor providing a qualitative analysis of changes between two text documents.'' @ [nl] @
      ''        Based on the provided texts and the statistical analysis below, generate a concise, human-readable "High-Level Overview" of the changes.'' @ [nl] @
      ''        Synthesize the data into an executive summary. Use Markdown for formatting (e.g., headers, bold text, lists).'' @ [nl] @
      ''        Describe the key shifts in structure, readability, vocabulary, and style.'' @ [nl] @
      ''        Explain *how* and *why* the changes matter.'' @ [nl] @
      [nl] @
      ''        **Statistical Deltas:**'' @ [nl] @
      ''        - Total Word Count: '' @ getDelta (wordCount (original cmp)) (wordCount (revised cmp)) @ [nl] @
      ''        - Average Sentence Length: '' @ getDelta (avgSentenceLength (original cmp)) (avgSentenceLength (revised cmp)) @ [nl] @
      ''        - Flesch Reading Ease: '' @ getDelta (fleschReadingEase (original cmp)) (fleschReadingEase (revised cmp)) @ '' (Higher is easier)'' @ [nl] @
      ''        - Flesch-Kincaid Grade Level: '' @ getDelta (fleschKincaidGrade (original cmp)) (fleschKincaidGrade (revised cmp)) @ [nl] @
      ''        - Passive Voice Sentences: '' @ getDelta (passiveVoiceCount (original cmp)) (passiveVoiceCount (revised cmp)) @ [nl] @
      ''        - Lexical Density: '' @ getDelta (lexicalDensity (original cmp)) (lexicalDensity (revised cmp)) @ '' (Higher is more informative)'' @ [nl] @
      ''        - Lexical Diversity: '' @ getDelta (lexicalDiversity (original cmp)) (lexicalDiversity (revised cmp)) @ '' (Higher is richer vocabulary)'' @ [nl] @
      [nl] @
      ''        **Original Text:**'' @ [nl] @
      ''        ---'' @ [nl] @
      ''        '' @ oText @ [nl] @
      ''        ---'' @ [nl] @
      [nl] @
      ''        **Revised Text:**'' @ [nl] @
      ''        ---'' @ [nl] @
      ''        '' @ rText @ [nl] @
      ''        ---'' @ [nl] @
      [nl] @
      ''        **Your High-Level Overview (in Markdown):**'' @ [nl] @
      ''      ''\<close>

subsection \<open>State and collaborators\<close>

text \<open>
  The component state that \<open>handleCompare\<close> reads or writes. The handler runs
  against the texts of the render that created it.
\<close>

record AppState =
  originalText :: string
  revisedText :: string
  analysis :: "AnalysisComparison option"
  aiSummary :: string
  isLoading :: bool
  error :: "string option"
  progress :: jsnum
  progressMessage :: string

text \<open>
  The two services are imported from modules outside the handler and are parameters
  here. \<open>analyzeText\<close> returns a result or throws (\<open>None\<close>). \<open>getAIAnalysis\<close>
  throws before returning, or returns a promise that resolves with the summary,
  rejects, or never settles. Each call of a service is recorded, in order.
\<close>

datatype AiOutcome = Resolves string | Rejects | Throws | Pending

datatype Call = AnalyzeText string | GetAIAnalysis string

definition setProgressState :: "jsnum \<Rightarrow> string \<Rightarrow> AppState \<Rightarrow> AppState" where
  "setProgressState p m s = s\<lparr>progress := p, progressMessage := m\<rparr>"

text \<open>The \<open>catch\<close> and \<open>finally\<close> blocks.\<close>

definition failed :: "AppState \<Rightarrow> AppState" where
  "failed s = s\<lparr>error := Some ''An unexpected error occurred during analysis.'',
               isLoading := False\<rparr>"

text \<open>The simulated progress that runs beside the request, whatever the request
  does once it has been issued.\<close>

definition progressSimulation :: "AppState \<Rightarrow> AppState" where
  "progressSimulation s =
     setProgressState (Fin 90) ''Gemini Synthesizing Information into Coherent Summary...''
       (setProgressState (Fin 70) ''Gemini Correlating Statistical Deltas with Texts...''
         (setProgressState (Fin 50) (''Waiting for Gemini'' @ [CHR 0x27] @ ''s Analysis...'')
           (setProgressState (Fin 40) ''Contacting Gemini with Context...'' s)))"

text \<open>
  \<open>handleCompare\<close> yields the state once the handler and the progress simulation
  have come to rest, and the service calls made. The delays between the steps only
  let the interface repaint and are not part of the state.
\<close>

definition handleCompare ::
  "string option \<Rightarrow> (string \<Rightarrow> AnalysisResult option) \<Rightarrow> (string \<Rightarrow> AiOutcome) \<Rightarrow>
   AppState \<Rightarrow> AppState \<times> Call list" where
  "handleCompare apiKey analyzeText getAIAnalysis s =
     (if apiKey = None \<or> apiKey = Some '''' then
        (s\<lparr>error := Some ''A Gemini API key is not configured. Please set the API_KEY environment variable.''\<rparr>, [])
      else if originalText s = '''' \<or> revisedText s = '''' then
        (s\<lparr>error := Some ''Please provide both original and revised text to compare.''\<rparr>, [])
      else
        let s1 = s\<lparr>error := None, isLoading := True, analysis := None, aiSummary := ''''\<rparr>;
            s2 = setProgressState (Fin 0) ''Preparing for analysis...'' s1;
            s3 = setProgressState (Fin 10) ''Data Pre-processing & Synthesis...'' s2
        in case analyzeText (originalText s) of
             None \<Rightarrow> (failed s3, [AnalyzeText (originalText s)])
           | Some originalAnalysis \<Rightarrow>
        (case analyzeText (revisedText s) of
             None \<Rightarrow> (failed s3, [AnalyzeText (originalText s), AnalyzeText (revisedText s)])
           | Some revisedAnalysis \<Rightarrow>
        (let comparison = \<lparr>original = originalAnalysis, revised = revisedAnalysis\<rparr>;
            s4 = s3\<lparr>analysis := Some comparison\<rparr>;
            s5 = setProgressState (Fin 30) ''Data Pre-processing & Synthesis...'' s4;
            s6 = setProgressState (Fin 35) ''Strategic Prompt Engineering...'' s5;
            prompt = buildPrompt comparison (originalText s) (revisedText s);
            calls = [AnalyzeText (originalText s), AnalyzeText (revisedText s),
                     GetAIAnalysis prompt]
        in (case getAIAnalysis prompt of
             Throws \<Rightarrow> (failed s6, calls)
           | Rejects \<Rightarrow> (progressSimulation (failed s6), calls)
           | Pending \<Rightarrow> (progressSimulation s6, calls)
           | Resolves summary \<Rightarrow>
               (let s7 = (progressSimulation s6)\<lparr>aiSummary := summary\<rparr>;
                    s8 = setProgressState (Fin 95) ''Receiving Markdown Text from Gemini...'' s7;
                    s9 = setProgressState (Fin 100) ''Displaying Results as Styled HTML...'' s8
                in (s9\<lparr>isLoading := False\<rparr>, calls))))))"

text \<open>A state before any comparison, with the revised text still missing.\<close>

definition idleState :: AppState where
  "idleState = \<lparr>originalText = ''Old text.'', revisedText = [], analysis = None,
     aiSummary = [], isLoading = False, error = None, progress = Fin 0,
     progressMessage = []\<rparr>"

section \<open>The text-metrics engine: segmentation, sentence structure, word frequency\<close>

text \<open>
  Modelled from the spec: the engine behind \<open>analyzeText\<close> (the module
  \<open>services/textAnalysisService\<close> that the application imports) is not among the
  sources. Its Tokenizer (4.1), the sentence-structure classification of its
  StyleAnalyzer (4.5), the word-frequency table of its LexicalAnalyzer (4.4) and the
  fields of the result that the Aggregator (4.6) fills from them are written here
  from the spec's sentences. The reference lists that the spec names without
  giving them are parameters. Text is a sequence of bytes; case folding and the
  character classes are those of ASCII.
\<close>

text \<open>Modelled from the spec: the read-only reference tables (5), of which the engine
  parts below use the abbreviation list and the stopword list, the open end of the
  list of subordinating conjunctions (4.5), and the length N of the frequency table
  (3). Their entries are case-folded words.\<close>

record Tables =
  abbreviations :: "string list"
  stopwords :: "string list"
  subordinators :: "string list"
  topN :: nat

subsection \<open>Characters\<close>

text \<open>Modelled from the spec: the whitespace on which 4.1 splits a sentence into
  tokens (space, tab, line feed, vertical tab, form feed, carriage return).\<close>

definition isSpace :: "char \<Rightarrow> bool" where
  "isSpace c = (of_char c \<in> set [32, 9, 10, 11, 12, 13 :: nat])"

text \<open>Modelled from the spec: the digits of a decimal number (4.1).\<close>

definition isDigit :: "char \<Rightarrow> bool" where
  "isDigit c = (48 \<le> (of_char c :: nat) \<and> (of_char c :: nat) \<le> 57)"

text \<open>Modelled from the spec: the letters, of which a token before a full stop
  consists (4.1).\<close>

definition isLetter :: "char \<Rightarrow> bool" where
  "isLetter c = ((65 \<le> (of_char c :: nat) \<and> (of_char c :: nat) \<le> 90) \<or>
                 (97 \<le> (of_char c :: nat) \<and> (of_char c :: nat) \<le> 122))"

text \<open>Modelled from the spec: the punctuation that 4.1 strips from the ends of a
  token: the printable ASCII characters that are neither letters nor digits.\<close>

definition isPunct :: "char \<Rightarrow> bool" where
  "isPunct c = ((33 \<le> (of_char c :: nat) \<and> (of_char c :: nat) \<le> 47) \<or>
                (58 \<le> (of_char c :: nat) \<and> (of_char c :: nat) \<le> 64) \<or>
                (91 \<le> (of_char c :: nat) \<and> (of_char c :: nat) \<le> 96) \<or>
                (123 \<le> (of_char c :: nat) \<and> (of_char c :: nat) \<le> 126))"

text \<open>Modelled from the spec: the case folding of a token (3).\<close>

definition toLower :: "char \<Rightarrow> char" where
  "toLower c = (if 65 \<le> (of_char c :: nat) \<and> (of_char c :: nat) \<le> 90
                then char_of (of_char c + 32 :: nat) else c)"

subsection \<open>Tokenizer\<close>

text \<open>Modelled from the spec: the lines of the text, between which 4.1 looks for the
  blank lines that separate paragraphs.\<close>

fun splitLines :: "string \<Rightarrow> string list" where
  "splitLines [] = [[]]"
| "splitLines (c # cs) =
     (if c = CHR 0x0A then [] # splitLines cs
      else (case splitLines cs of [] \<Rightarrow> [[c]] | l # ls \<Rightarrow> (c # l) # ls))"

text \<open>Modelled from the spec: a blank line holds nothing but whitespace.\<close>

definition isBlank :: "string \<Rightarrow> bool" where
  "isBlank l = list_all isSpace l"

text \<open>Modelled from the spec: ``Splits on blank lines for paragraphs'' (4.1). A
  paragraph is a maximal run of lines that are not blank; \<open>cur\<close> holds the text of
  the run being read.\<close>

fun splitParagraphs :: "string \<Rightarrow> string list \<Rightarrow> string list" where
  "splitParagraphs cur [] = (if cur = [] then [] else [cur])"
| "splitParagraphs cur (l # ls) =
     (if isBlank l then (if cur = [] then [] else [cur]) @ splitParagraphs [] ls
      else splitParagraphs (if cur = [] then l else cur @ [CHR 0x0A] @ l) ls)"

text \<open>Modelled from the spec: a full stop ``preceded by a known abbreviation token
  (e.g., "Mr", "Dr", "etc")'' (4.1). \<open>seen\<close> is the text read so far, last character
  first.\<close>

definition afterAbbreviation :: "Tables \<Rightarrow> string \<Rightarrow> bool" where
  "afterAbbreviation tb seen =
     (map toLower (rev (takeWhile isLetter seen)) \<in> set (abbreviations tb))"

text \<open>Modelled from the spec: a full stop ``embedded in a decimal number'' (4.1).\<close>

definition inDecimal :: "string \<Rightarrow> string \<Rightarrow> bool" where
  "inDecimal seen ahead =
     (seen \<noteq> [] \<and> isDigit (hd seen) \<and> ahead \<noteq> [] \<and> isDigit (hd ahead))"

text \<open>Modelled from the spec: a full stop that is ``part of an ellipsis (...)'' (4.1):
  one of three or more in a row.\<close>

definition inEllipsis :: "string \<Rightarrow> string \<Rightarrow> bool" where
  "inEllipsis seen ahead =
     (3 \<le> length (takeWhile (\<lambda>c. c = CHR ''.'') seen) + 1 +
          length (takeWhile (\<lambda>c. c = CHR ''.'') ahead))"

text \<open>Modelled from the spec: the sentence-terminal punctuation \<open>.\<close>, \<open>!\<close>, \<open>?\<close>,
  ``treating a terminal \<open>.\<close> as non-boundary'' in the three cases above (4.1).\<close>

definition isBoundary :: "Tables \<Rightarrow> string \<Rightarrow> char \<Rightarrow> string \<Rightarrow> bool" where
  "isBoundary tb seen c ahead =
     (if c = CHR ''.'' then
        \<not> (afterAbbreviation tb seen \<or> inDecimal seen ahead \<or> inEllipsis seen ahead)
      else c = CHR ''!'' \<or> c = CHR ''?'')"

text \<open>Modelled from the spec: ``within a paragraph, splits on sentence-terminal
  punctuation'', and past a full stop that is no boundary ``scanning continues to the
  next terminal mark'' (4.1); text with no terminal mark left is one sentence (7,
  UnboundedText). \<open>cur\<close> is the sentence being read, last character first.\<close>

fun splitSentences :: "Tables \<Rightarrow> string \<Rightarrow> string \<Rightarrow> string \<Rightarrow> string list" where
  "splitSentences tb seen cur [] = [rev cur]"
| "splitSentences tb seen cur (c # cs) =
     (if isBoundary tb seen c cs then rev cur # splitSentences tb (c # seen) [] cs
      else splitSentences tb (c # seen) (c # cur) cs)"

text \<open>Modelled from the spec: ``Within a sentence, splits on whitespace'' (4.1).\<close>

fun splitWords :: "string \<Rightarrow> string \<Rightarrow> string list" where
  "splitWords cur [] = (if cur = [] then [] else [rev cur])"
| "splitWords cur (c # cs) =
     (if isSpace c then (if cur = [] then [] else [rev cur]) @ splitWords [] cs
      else splitWords (c # cur) cs)"

text \<open>Modelled from the spec: the normalized word of a token, ``case-folded,
  punctuation-stripped, internal hyphens/apostrophes preserved'' (3, 4.1).\<close>

definition normalize :: "string \<Rightarrow> string" where
  "normalize w = map toLower (rev (dropWhile isPunct (rev (dropWhile isPunct w))))"

text \<open>Modelled from the spec: the tokens of a sentence (4.1); what is left empty by
  the stripping is no word.\<close>

definition tokenize :: "string \<Rightarrow> string list" where
  "tokenize s = filter (\<lambda>w. w \<noteq> []) (map normalize (splitWords [] s))"

text \<open>Modelled from the spec: a Sentence (3) with its text and its ordered tokens, a
  token being its normalized word. The syllable count and the flags of a token
  belong to the parts of the engine that are not modelled.\<close>

record Sentence =
  raw :: string
  tokens :: "string list"

text \<open>Modelled from the spec: the sentences of one paragraph (4.1); a stretch
  between terminal marks that holds only whitespace is no sentence.\<close>

definition sentencesOf :: "Tables \<Rightarrow> string \<Rightarrow> Sentence list" where
  "sentencesOf tb p =
     map (\<lambda>s. \<lparr>raw = s, tokens = tokenize s\<rparr>)
       (filter (\<lambda>s. \<not> isBlank s) (splitSentences tb [] [] p))"

text \<open>Modelled from the spec: \<open>segment(text) -> Paragraph[]\<close> (4.1), a Paragraph
  being the ordered sequence of its sentences (3).\<close>

definition segment :: "Tables \<Rightarrow> string \<Rightarrow> Sentence list list" where
  "segment tb t = map (sentencesOf tb) (splitParagraphs [] (splitLines t))"

text \<open>Modelled from the spec: the sentences of the text, in the order of its
  paragraphs (3).\<close>

definition allSentences :: "Tables \<Rightarrow> string \<Rightarrow> Sentence list" where
  "allSentences tb t = concat (segment tb t)"

text \<open>Modelled from the spec: the words of the text, in the order of its sentences
  (3).\<close>

definition allWords :: "Tables \<Rightarrow> string \<Rightarrow> string list" where
  "allWords tb t = concat (map tokens (allSentences tb t))"

subsection \<open>Sentence structure\<close>

text \<open>Modelled from the spec: the coordinating conjunctions
  ``and/but/or/so/yet/for/nor'' (4.5).\<close>

definition isCoordinator :: "string \<Rightarrow> bool" where
  "isCoordinator w = (w \<in> set [''and'', ''but'', ''or'', ''so'', ''yet'', ''for'', ''nor''])"

text \<open>Modelled from the spec: the words that introduce a dependent clause:
  ``subordinating conjunctions "because/although/since/while/if/when/..." or relative
  pronouns "which/that/who/whose"'' (4.5); the open end of the first list is the
  table's.\<close>

definition isSubordinator :: "Tables \<Rightarrow> string \<Rightarrow> bool" where
  "isSubordinator tb w =
     (w \<in> set [''because'', ''although'', ''since'', ''while'', ''if'', ''when''] \<or>
      w \<in> set (subordinators tb) \<or>
      w \<in> set [''which'', ''that'', ''who'', ''whose''])"

text \<open>Modelled from the spec: the independent clauses of a sentence, the ``segments
  joined by coordinating conjunctions ... or by semicolons'' (4.5): one more than
  the joints.\<close>

definition independentClauses :: "Sentence \<Rightarrow> nat" where
  "independentClauses s =
     1 + length (filter isCoordinator (tokens s)) +
         length (filter (\<lambda>c. c = CHR '';'') (raw s))"

text \<open>Modelled from the spec: the dependent clauses of a sentence, the ``segments
  introduced by'' a subordinating conjunction or a relative pronoun (4.5).\<close>

definition dependentClauses :: "Tables \<Rightarrow> Sentence \<Rightarrow> nat" where
  "dependentClauses tb s = length (filter (isSubordinator tb) (tokens s))"

text \<open>Modelled from the spec: ``simple = 1 independent, 0 dependent'' (4.5).\<close>

definition isSimple :: "Tables \<Rightarrow> Sentence \<Rightarrow> bool" where
  "isSimple tb s = (independentClauses s = 1 \<and> dependentClauses tb s = 0)"

text \<open>Modelled from the spec: ``compound = \<ge>2 independent, 0 dependent'' (4.5).\<close>

definition isCompound :: "Tables \<Rightarrow> Sentence \<Rightarrow> bool" where
  "isCompound tb s = (2 \<le> independentClauses s \<and> dependentClauses tb s = 0)"

text \<open>Modelled from the spec: ``complex = 1 independent, \<ge>1 dependent'' (4.5).\<close>

definition isComplex :: "Tables \<Rightarrow> Sentence \<Rightarrow> bool" where
  "isComplex tb s = (independentClauses s = 1 \<and> 1 \<le> dependentClauses tb s)"

text \<open>Modelled from the spec: ``compound-complex = \<ge>2 independent, \<ge>1 dependent''
  (4.5).\<close>

definition isCompoundComplex :: "Tables \<Rightarrow> Sentence \<Rightarrow> bool" where
  "isCompoundComplex tb s = (2 \<le> independentClauses s \<and> 1 \<le> dependentClauses tb s)"

subsection \<open>Word frequency\<close>

text \<open>Modelled from the spec: one more occurrence of a word in the table of words
  with their counts (4.4); a new word is entered at the end.\<close>

fun bump :: "string \<Rightarrow> (string \<times> nat) list \<Rightarrow> (string \<times> nat) list" where
  "bump w [] = [(w, 1)]"
| "bump w ((v, c) # es) = (if v = w then (v, Suc c) # es else (v, c) # bump w es)"

text \<open>Modelled from the spec: ``count occurrences of case-folded tokens'' (4.4): the
  table of the words read in order, which therefore lists them by first occurrence.\<close>

definition countWords :: "string list \<Rightarrow> (string \<times> nat) list" where
  "countWords ws = foldl (\<lambda>es w. bump w es) [] ws"

text \<open>Modelled from the spec: ``excluding stopwords, sort descending by count with
  first-occurrence order as tie-break, return top N'' (4.4): a stable sort of the
  table, which is in the order of first occurrence.\<close>

definition rankWords :: "Tables \<Rightarrow> string list \<Rightarrow> (string \<times> nat) list" where
  "rankWords tb ws =
     take (topN tb)
       (sort_key (\<lambda>e. - int (snd e)) (countWords (filter (\<lambda>w. w \<notin> set (stopwords tb)) ws)))"

text \<open>Modelled from the spec: the place of the first occurrence of a word in the
  words of the text (8).\<close>

fun firstIndex :: "'a \<Rightarrow> 'a list \<Rightarrow> nat" where
  "firstIndex x [] = 0"
| "firstIndex x (y # ys) = (if x = y then 0 else Suc (firstIndex x ys))"

subsection \<open>Aggregator\<close>

text \<open>Modelled from the spec: a count as a number of the result record (3). Below
  \<open>2 ^ 53\<close>, where the counts of a text lie, it is a binary64 value.\<close>

definition countNum :: "nat \<Rightarrow> jsnum" where
  "countNum n = Fin (of_nat n)"

text \<open>Modelled from the spec: what the result of the engine for the text \<open>t\<close> holds
  in its raw counts, its sentence-structure counts and its frequency table (3,
  4.6). The other fields come from the parts of the engine that are not modelled
  and are left open.\<close>

definition analysisOf :: "Tables \<Rightarrow> string \<Rightarrow> AnalysisResult \<Rightarrow> bool" where
  "analysisOf tb t r =
     (wordCount r = countNum (length (allWords tb t)) \<and>
      paragraphCount r = countNum (length (segment tb t)) \<and>
      sentenceCount r = countNum (length (allSentences tb t)) \<and>
      sentenceStructure r =
        \<lparr>simple = countNum (length (filter (isSimple tb) (allSentences tb t))),
         compound = countNum (length (filter (isCompound tb) (allSentences tb t))),
         complex = countNum (length (filter (isComplex tb) (allSentences tb t))),
         compoundComplex =
           countNum (length (filter (isCompoundComplex tb) (allSentences tb t)))\<rparr> \<and>
      wordFrequency r =
        map (\<lambda>e. \<lparr>word = fst e, count = countNum (snd e)\<rparr>) (rankWords tb (allWords tb t)))"

subsection \<open>Examples\<close>

text \<open>Reference tables for the examples, with the abbreviations that the spec names
  (4.1) and a few function words as stopwords.\<close>

definition exampleTables :: Tables where
  "exampleTables =
     \<lparr>abbreviations = [''mr'', ''dr'', ''etc''],
      stopwords = [''the'', ''a'', ''on'', ''and'', ''it'', ''was'', ''i'', ''she'', ''because''],
      subordinators = [''unless''],
      topN = 3\<rparr>"

text \<open>A result record from its modelled fields; the fields that the model leaves
  open are zero.\<close>

definition resultWith ::
  "nat \<Rightarrow> nat \<Rightarrow> nat \<Rightarrow> nat \<times> nat \<times> nat \<times> nat \<Rightarrow> (string \<times> nat) list \<Rightarrow> AnalysisResult" where
  "resultWith w p s st fq =
     \<lparr>wordCount = countNum w, paragraphCount = countNum p, sentenceCount = countNum s,
      avgSentenceLength = Fin 0, fleschReadingEase = Fin 0, fleschKincaidGrade = Fin 0,
      gunningFog = Fin 0, smogIndex = Fin 0, daleChall = Fin 0, lexicalDensity = Fin 0,
      lexicalDiversity = Fin 0,
      wordFrequency = map (\<lambda>e. \<lparr>word = fst e, count = countNum (snd e)\<rparr>) fq,
      passiveVoiceCount = Fin 0,
      sentenceStructure =
        (case st of (a, b, c, d) \<Rightarrow>
           \<lparr>simple = countNum a, compound = countNum b, complex = countNum c,
            compoundComplex = countNum d\<rparr>),
      weakWordCount = Fin 0\<rparr>"

text \<open>A text of a compound-complex and a simple sentence, and its result.\<close>

definition clauseText :: string where
  "clauseText = ''I ran, and she jumped because it was fun. The cat sat on the mat.''"

definition clauseResult :: AnalysisResult where
  "clauseResult =
     resultWith 15 1 2 (1, 0, 0, 1) [(''ran'', 1), (''jumped'', 1), (''fun'', 1)]"

text \<open>A text in which four words occur twice each, and its result under the
  example tables, whose table length is three.\<close>

definition rankText :: string where
  "rankText = ''The cat saw the dog. The dog saw a bird and the cat. Bird!''"

definition rankResult :: AnalysisResult where
  "rankResult =
     resultWith 14 1 3 (2, 1, 0, 0) [(''cat'', 2), (''saw'', 2), (''dog'', 2)]"

section \<open>The number model at work\<close>

text \<open>The integer logarithm, the power by squaring and the exponent of a positive
  rational are what their names say.\<close>

lemma ilog_bounds:
  assumes "2 \<le> b" and "1 \<le> n"
  shows "0 \<le> ilog b n \<and> b ^ nat (ilog b n) \<le> n \<and> n < b ^ nat (ilog b n + 1)"
  using assms
proof (induction b n rule: ilog.induct)
  case (1 b n)
  show ?case
  proof (cases "n < b")
    case True
    then have "ilog b n = 0" by (simp add: ilog.simps [of b n])
    with True "1.prems" show ?thesis by simp
  next
    case False
    let ?m = "n div b"
    let ?k = "nat (ilog b ?m)"
    have b: "0 < b" using "1.prems" by simp
    have m: "1 \<le> ?m"
      using False b by (simp add: pos_imp_zdiv_pos_iff int_one_le_iff_zero_less)
    have il: "ilog b n = 1 + ilog b ?m"
      using False "1.prems" by (simp add: ilog.simps [of b n])
    have IH: "0 \<le> ilog b ?m \<and> b ^ ?k \<le> ?m \<and> ?m < b ^ nat (ilog b ?m + 1)"
      using "1.IH" False "1.prems" m by simp
    then have pos: "0 \<le> ilog b ?m" by simp
    have k1: "nat (ilog b ?m + 1) = Suc ?k" and k2: "nat (ilog b n) = Suc ?k"
      and k3: "nat (ilog b n + 1) = Suc (Suc ?k)"
      using il pos by linarith+
    have r: "0 \<le> n mod b" "n mod b < b" using b by simp_all
    have "b * b ^ ?k \<le> b * ?m" using IH b by simp
    also have "\<dots> \<le> n" using r mult_div_mod_eq [of b n] by linarith
    finally have lower: "b ^ Suc ?k \<le> n" by simp
    have "?m + 1 \<le> b ^ Suc ?k" using IH k1 by simp
    then have "b * (?m + 1) \<le> b * b ^ Suc ?k" using b by simp
    moreover have "n < b * (?m + 1)"
    proof -
      have "n < b * ?m + b" using r mult_div_mod_eq [of b n] by linarith
      then show ?thesis by (simp add: distrib_left)
    qed
    ultimately have upper: "n < b ^ Suc (Suc ?k)" by simp
    from il IH lower upper show ?thesis
      unfolding k2 k3 by simp
  qed
qed

lemma bpow_eq: "0 \<le> e \<Longrightarrow> bpow b e = b ^ nat e"
proof (induction b e rule: bpow.induct)
  case (1 b e)
  show ?case
  proof (cases "e = 0")
    case True
    then show ?thesis by (simp add: bpow.simps [of b 0])
  next
    case False
    with "1.prems" have pos: "0 < e" by simp
    have half: "bpow b (e div 2) = b ^ nat (e div 2)"
      using "1.IH" pos by (cases "even e") auto
    have "nat e = 2 * nat (e div 2) + (if even e then 0 else 1)"
      using pos by (auto elim!: evenE oddE simp: nat_mult_distrib nat_add_distrib)
    then have "b ^ nat e = (if even e then 1 else b) * (b ^ nat (e div 2) * b ^ nat (e div 2))"
      by (simp add: power_add mult_2 flip: power_add)
    with pos half show ?thesis
      by (simp add: bpow.simps [of b e])
  qed
qed

lemma ipow_powi: "ipow b e = b powi e"
  by (simp add: ipow_def bpow_eq power_int_def inverse_eq_divide power_one_over)

lemma expo_bounds:
  assumes "2 \<le> b" and "0 < a"
  shows "ipow (of_int b) (expo b a) \<le> a \<and> a < ipow (of_int b) (expo b a + 1)"
proof -
  obtain p q where pq: "quotient_of a = (p, q)" by (cases "quotient_of a")
  let ?B = "of_int b :: rat"
  let ?lp = "ilog b p" and ?lq = "ilog b q"
  have B: "0 < ?B" using assms(1) by simp
  have q: "0 < q" using pq by (rule quotient_of_denom_pos)
  have a: "a = of_int p / of_int q" using pq by (rule quotient_of_div)
  have p: "0 < p"
    using assms(2) q unfolding a by (simp add: zero_less_divide_iff)
  have bp: "0 \<le> ?lp \<and> b ^ nat ?lp \<le> p \<and> p < b ^ nat (?lp + 1)"
    using assms(1) p by (intro ilog_bounds) simp_all
  have bq: "0 \<le> ?lq \<and> b ^ nat ?lq \<le> q \<and> q < b ^ nat (?lq + 1)"
    using assms(1) q by (intro ilog_bounds) simp_all
  have cast: "?B powi l \<le> of_int n \<and> of_int n < ?B powi (l + 1)"
    if "0 \<le> l \<and> b ^ nat l \<le> n \<and> n < b ^ nat (l + 1)" for l n
  proof -
    from that have "(of_int (b ^ nat l) :: rat) \<le> of_int n"
      and "(of_int n :: rat) < of_int (b ^ nat (l + 1))"
      by (simp_all only: of_int_le_iff of_int_less_iff)
    with that show ?thesis by (simp add: power_int_def)
  qed
  have p1: "?B powi ?lp \<le> of_int p" and p2: "of_int p < ?B powi (?lp + 1)"
    using cast [OF bp] by simp_all
  have q1: "?B powi ?lq \<le> of_int q" and q2: "of_int q < ?B powi (?lq + 1)"
    using cast [OF bq] by simp_all
  have Bq: "0 < ?B powi ?lq" and Bq1: "0 < ?B powi (?lq + 1)" and Bp: "0 < ?B powi ?lp"
    using B by simp_all
  have up: "a < ?B powi (?lp - ?lq + 1)"
  proof -
    have "a \<le> of_int p / ?B powi ?lq"
      unfolding a using q1 p Bq by (simp add: frac_le)
    also have "\<dots> < ?B powi (?lp + 1) / ?B powi ?lq"
      using p2 Bq by (simp add: divide_strict_right_mono)
    also have "\<dots> = ?B powi (?lp + 1 - ?lq)"
      using B by (simp add: power_int_diff)
    finally show ?thesis by (simp add: algebra_simps)
  qed
  have low: "?B powi (?lp - ?lq - 1) < a"
  proof -
    have "?B powi (?lp - ?lq - 1) = ?B powi ?lp / ?B powi (?lq + 1)"
      using B by (simp add: power_int_diff algebra_simps)
    also have "\<dots> \<le> of_int p / ?B powi (?lq + 1)"
      using p1 Bq1 by (simp add: divide_right_mono)
    also have "\<dots> < a"
      unfolding a using q2 p q by (simp add: divide_strict_left_mono)
    finally show ?thesis .
  qed
  show ?thesis
  proof (cases "?B powi (?lp - ?lq) \<le> a")
    case True
    then have "expo b a = ?lp - ?lq" by (simp add: expo_def pq ipow_powi)
    with True up show ?thesis by (simp add: ipow_powi)
  next
    case False
    then have "expo b a = ?lp - ?lq - 1" by (simp add: expo_def pq ipow_powi)
    with False low show ?thesis by (simp add: ipow_powi)
  qed
qed

text \<open>Rounding leaves an integer below \<open>2 ^ 53\<close> as it is: counts are exact.\<close>

lemma roundHalfEven_of_int: "roundHalfEven (of_int z) = z"
  by (simp add: roundHalfEven_def)

lemma fl_int_exact:
  assumes "1 \<le> m" and "m < 2 ^ 53"
  shows "fl neg (of_int m) = Fin (if neg then - of_int m else of_int m)"
proof -
  let ?a = "of_int m :: rat"
  let ?e = "expo 2 ?a"
  have a: "1 \<le> ?a" "?a < 2 ^ 53" using assms by simp_all
  have eb: "2 powi ?e \<le> ?a \<and> ?a < 2 powi (?e + 1)"
    using expo_bounds [of 2 ?a] a(1) by (simp add: ipow_powi)
  have e0: "0 \<le> ?e"
  proof (rule ccontr)
    assume "\<not> 0 \<le> ?e"
    then have "?e + 1 \<le> 0" by simp
    then have "(2::rat) powi (?e + 1) \<le> 2 powi 0"
      by (intro power_int_increasing) simp_all
    with eb a(1) show False by simp
  qed
  have e52: "?e \<le> 52"
  proof (rule ccontr)
    assume "\<not> ?e \<le> 52"
    then have "53 \<le> ?e" by simp
    then have "(2::rat) powi 53 \<le> 2 powi ?e"
      by (intro power_int_increasing) simp_all
    moreover have "(2::rat) powi 53 = 2 ^ 53"
      using power_int_of_nat [of "2::rat" 53] by simp
    ultimately show False using eb a(2) by simp
  qed
  define k where "k = nat (52 - ?e)"
  have u: "ulpOf ?a = 1 / 2 ^ k"
    using e0 e52 by (simp add: ulpOf_def ipow_powi k_def power_int_def inverse_eq_divide
        power_one_over)
  have q: "?a / ulpOf ?a = of_int (m * 2 ^ k)"
    by (simp add: u)
  have r: "of_int (roundHalfEven (?a / ulpOf ?a)) * ulpOf ?a = ?a"
    unfolding q roundHalfEven_of_int by (simp add: u)
  have big: "\<not> ipow 2 1024 \<le> ?a"
  proof -
    have "(2::rat) ^ 53 \<le> 2 ^ 1024" by (rule power_increasing) simp_all
    moreover have "ipow 2 1024 = (2::rat) ^ 1024"
      using power_int_of_nat [of "2::rat" 1024] by (simp add: ipow_powi)
    ultimately show ?thesis using a(2) by simp
  qed
  have nz: "?a \<noteq> 0" using a(1) by simp
  show ?thesis
    using r big nz by (simp add: fl_def Let_def)
qed

lemma num_int_exact:
  assumes "\<bar>n\<bar> < 2 ^ 53"
  shows "num (of_int n) = Fin (of_int n)"
proof (cases "n = 0")
  case True
  then show ?thesis by (simp add: num_def fl_def zero_def)
next
  case False
  then have "1 \<le> \<bar>n\<bar>" by simp
  from fl_int_exact [OF this assms, of "n < 0"] show ?thesis
    by (simp add: num_def flip: of_int_abs)
qed

text \<open>Three deltas, computed through the rounding of each operation: a gain, a loss
  that is rounded to one digit, and a loss too small for its digit, which keeps its
  sign.\<close>

lemma getDelta_examples:
  "getDelta (Fin 100) (Fin 150) = ''+50.0%''"
  "getDelta (Fin 3) (Fin 2) = ''-33.3%''"
  "getDelta (Fin 2500) (Fin 2499) = ''-0.0%''"
  by code_simp+

section \<open>Percentage deltas from a zero baseline and of an unchanged metric\<close>

lemma js_le_not_gt: "js_le x y \<Longrightarrow> \<not> js_gt x y"
  by (simp add: js_le_def js_gt_def)

text \<open>
  C8. When the original value is zero (\<open>original === 0\<close>, which both zeros
  satisfy), \<open>getDelta\<close> returns \<open>+100.0%\<close> for every revised value above zero, the
  positive infinity included, and \<open>0.0%\<close> for every revised value at or below zero.
\<close>

theorem getDelta_zero_baseline:
  assumes "js_strict_eq orig (Fin 0)"
  shows "(js_gt revd (Fin 0) \<longrightarrow> getDelta orig revd = ''+100.0%'') \<and>
         (js_le revd (Fin 0) \<longrightarrow> getDelta orig revd = ''0.0%'') \<and>
         getDelta orig PosInf = ''+100.0%''"
proof -
  have inf: "js_gt PosInf (Fin 0)"
    by (simp add: js_gt_def js_lt_def)
  show ?thesis
    using assms inf js_le_not_gt [of revd "Fin 0"] by (simp add: getDelta_def)
qed

theorem getDelta_zero_baseline_witness:
  "js_strict_eq NegZero (Fin 0) \<and> js_gt (Fin 250) (Fin 0) \<and>
   getDelta NegZero (Fin 250) = ''+100.0%'' \<and> getDelta NegZero PosInf = ''+100.0%''"
proof -
  have z: "js_strict_eq NegZero (Fin 0)"
    by (simp add: js_strict_eq_def isFinite_def val_def)
  have g: "js_gt (Fin 250) (Fin 0)"
    by (simp add: js_gt_def js_lt_def val_def)
  show ?thesis
    using z g getDelta_zero_baseline [OF z, of "Fin 250"] by simp
qed

lemma digitsOf_0: "digitsOf 0 = ''0''"
  by (simp add: digitsOf.simps [of 0] digitChar_def)

lemma floor_half: "\<lfloor>1 / 2 :: rat\<rfloor> = 0"
  by (simp add: floor_eq_iff)

lemma toFixed_zero: "toFixed 1 (zero b) = ''0.0''"
  by (simp add: toFixed_def zero_def isFinite_def val_def floor_half digitsOf_0 Let_def)

lemma js_ge_zero: "js_ge (zero b) (Fin 0)"
  by (simp add: js_ge_def js_lt_def zero_def val_def)

lemma unchanged_change:
  assumes "q \<noteq> 0"
  shows "js_mul (js_div (js_sub (Fin q) (Fin q)) (Fin q)) (Fin 100) = zero (q < 0)"
proof -
  have "js_sub (Fin q) (Fin q) = Fin 0"
    using assms by (simp add: js_sub_def js_neg_def js_add_def isFinite_def val_def)
  moreover have "js_div (Fin 0) (Fin q) = zero (q < 0)"
    using assms by (simp add: js_div_def isFinite_def val_def signBit_def fl_def)
  moreover have "js_mul (zero (q < 0)) (Fin 100) = zero (q < 0)"
    by (simp add: js_mul_def isFinite_def val_def signBit_def fl_def zero_def)
  ultimately show ?thesis by simp
qed

text \<open>
  C10. For every finite metric value \<open>x\<close> other than zero, \<open>getDelta(x, x)\<close> is
  \<open>+0.0%\<close>, with the sign; \<open>getDelta(0, 0)\<close> is \<open>0.0%\<close>, without it, for either zero.
\<close>

theorem getDelta_unchanged:
  "(q \<noteq> 0 \<longrightarrow> getDelta (Fin q) (Fin q) = ''+0.0%'') \<and>
   getDelta (Fin 0) (Fin 0) = ''0.0%'' \<and> getDelta NegZero NegZero = ''0.0%''"
proof -
  have "getDelta (Fin q) (Fin q) = ''+0.0%''" if "q \<noteq> 0"
  proof -
    have "\<not> js_strict_eq (Fin q) (Fin 0)"
      using that by (simp add: js_strict_eq_def isFinite_def val_def)
    then show ?thesis
      using unchanged_change [OF that] js_ge_zero [of "q < 0"] toFixed_zero [of "q < 0"]
      by (simp add: getDelta_def)
  qed
  moreover have "getDelta (Fin 0) (Fin 0) = ''0.0%''"
    by (simp add: getDelta_def js_strict_eq_def js_gt_def js_lt_def isFinite_def val_def)
  moreover have "getDelta NegZero NegZero = ''0.0%''"
    by (simp add: getDelta_def js_strict_eq_def js_gt_def js_lt_def isFinite_def val_def)
  ultimately show ?thesis by blast
qed

theorem getDelta_unchanged_witness:
  "(- 7 / 2 :: rat) \<noteq> 0 \<and> getDelta (Fin (- 7 / 2)) (Fin (- 7 / 2)) = ''+0.0%'' \<and>
   getDelta (Fin 0) (Fin 0) = ''0.0%''"
  using getDelta_unchanged [of "- 7 / 2"] by simp

text \<open>The operands that are not finite are outside the metric values: the difference
  of an infinity with itself is \<open>NaN\<close>, and so is every delta of \<open>NaN\<close>.\<close>

lemma getDelta_not_finite:
  "getDelta NaN NaN = ''NaN%'' \<and> getDelta PosInf PosInf = ''NaN%'' \<and>
   getDelta NegInf NegInf = ''NaN%''"
  by (simp add: getDelta_def js_strict_eq_def js_sub_def js_neg_def js_add_def js_div_def
      js_mul_def js_ge_def toFixed_def numberToString_def isFinite_def)

section \<open>The guard of the comparison handler\<close>

text \<open>
  C9. \<open>handleCompare\<close> calls \<open>analyzeText\<close>, and builds and sends the prompt, only
  when the API key is configured and both texts are non-empty. Otherwise it makes no
  service call and changes nothing of the state but the error message, which it
  sets: to the message about the missing key when the key is not configured, and
  else to the message that asks for both texts. The previous analysis stays. With
  the key and both texts present, the first call is \<open>analyzeText\<close> on the original
  text.
\<close>

theorem handleCompare_guard:
  fixes apiKey analyzeText getAIAnalysis s
  defines "r \<equiv> handleCompare apiKey analyzeText getAIAnalysis s"
  defines "ready \<equiv> apiKey \<noteq> None \<and> apiKey \<noteq> Some [] \<and>
                   originalText s \<noteq> [] \<and> revisedText s \<noteq> []"
  shows "(snd r \<noteq> [] \<longrightarrow> ready) \<and>
         (\<not> ready \<longrightarrow> snd r = [] \<and> error (fst r) \<noteq> None \<and>
            fst r = s\<lparr>error := error (fst r)\<rparr> \<and> analysis (fst r) = analysis s) \<and>
         (ready \<longrightarrow> snd r \<noteq> [] \<and> hd (snd r) = AnalyzeText (originalText s)) \<and>
         (apiKey = None \<or> apiKey = Some [] \<longrightarrow>
            r = (s\<lparr>error := Some ''A Gemini API key is not configured. Please set the API_KEY environment variable.''\<rparr>, [])) \<and>
         (apiKey \<noteq> None \<and> apiKey \<noteq> Some [] \<and> (originalText s = [] \<or> revisedText s = []) \<longrightarrow>
            r = (s\<lparr>error := Some ''Please provide both original and revised text to compare.''\<rparr>, []))"
proof -
  have a: "\<not> ready \<Longrightarrow> snd r = [] \<and> error (fst r) \<noteq> None \<and>
      fst r = s\<lparr>error := error (fst r)\<rparr> \<and> analysis (fst r) = analysis s"
    by (auto simp: r_def ready_def handleCompare_def)
  have b: "ready \<Longrightarrow> snd r \<noteq> [] \<and> hd (snd r) = AnalyzeText (originalText s)"
    unfolding r_def ready_def handleCompare_def Let_def
    by (simp split: option.splits AiOutcome.splits)
  have c: "apiKey = None \<or> apiKey = Some [] \<Longrightarrow>
      r = (s\<lparr>error := Some ''A Gemini API key is not configured. Please set the API_KEY environment variable.''\<rparr>, [])"
    by (auto simp: r_def handleCompare_def)
  have d: "apiKey \<noteq> None \<and> apiKey \<noteq> Some [] \<and> (originalText s = [] \<or> revisedText s = []) \<Longrightarrow>
      r = (s\<lparr>error := Some ''Please provide both original and revised text to compare.''\<rparr>, [])"
    by (auto simp: r_def handleCompare_def)
  from a b c d show ?thesis by blast
qed

theorem handleCompare_guard_witness:
  "handleCompare None (\<lambda>t. None) (\<lambda>p. Pending) idleState =
     (idleState\<lparr>error := Some ''A Gemini API key is not configured. Please set the API_KEY environment variable.''\<rparr>, [])
   \<and> handleCompare (Some ''key'') (\<lambda>t. None) (\<lambda>p. Pending) idleState =
     (idleState\<lparr>error := Some ''Please provide both original and revised text to compare.''\<rparr>, [])
   \<and> snd (handleCompare (Some ''key'') (\<lambda>t. None) (\<lambda>p. Pending)
            (idleState\<lparr>revisedText := ''New text.''\<rparr>)) = [AnalyzeText ''Old text.'']"
proof -
  have nokey: "handleCompare None (\<lambda>t. None) (\<lambda>p. Pending) idleState =
     (idleState\<lparr>error := Some ''A Gemini API key is not configured. Please set the API_KEY environment variable.''\<rparr>, [])"
    using handleCompare_guard [of None "\<lambda>t. None" "\<lambda>p. Pending" idleState]
    by simp
  have notext: "handleCompare (Some ''key'') (\<lambda>t. None) (\<lambda>p. Pending) idleState =
     (idleState\<lparr>error := Some ''Please provide both original and revised text to compare.''\<rparr>, [])"
    using handleCompare_guard [of "Some ''key''" "\<lambda>t. None" "\<lambda>p. Pending" idleState]
    by (simp add: idleState_def)
  have "snd (handleCompare (Some ''key'') (\<lambda>t. None) (\<lambda>p. Pending)
            (idleState\<lparr>revisedText := ''New text.''\<rparr>)) = [AnalyzeText ''Old text.'']"
    by (simp add: handleCompare_def idleState_def failed_def setProgressState_def)
  with nokey notext show ?thesis by simp
qed

text \<open>With the key, both texts, both analyses and a summary from the service, the
  handler ends with the comparison and the summary stored, the progress at 100 and
  the loading flag down, after three service calls.\<close>

lemma handleCompare_success:
  assumes "apiKey \<noteq> None" "apiKey \<noteq> Some []" "originalText s \<noteq> []" "revisedText s \<noteq> []"
    and "analyzeText (originalText s) = Some a" "analyzeText (revisedText s) = Some b"
    and "getAIAnalysis (buildPrompt \<lparr>original = a, revised = b\<rparr> (originalText s) (revisedText s))
         = Resolves summary"
  shows "handleCompare apiKey analyzeText getAIAnalysis s =
    (s\<lparr>error := None, isLoading := False, analysis := Some \<lparr>original = a, revised = b\<rparr>,
       aiSummary := summary, progress := Fin 100,
       progressMessage := ''Displaying Results as Styled HTML...''\<rparr>,
     [AnalyzeText (originalText s), AnalyzeText (revisedText s),
      GetAIAnalysis (buildPrompt \<lparr>original = a, revised = b\<rparr> (originalText s) (revisedText s))])"
  using assms
  by (simp add: handleCompare_def Let_def setProgressState_def progressSimulation_def)

section \<open>The segmentation at work\<close>

text \<open>Scenarios 1 and 5 of the spec (8): ten words in two sentences of one paragraph,
  and one compound-complex sentence.\<close>

lemma spec_scenarios:
  "analysisOf exampleTables ''The cat sat on the mat. The dog ran quickly.''
     (resultWith 10 1 2 (2, 0, 0, 0) [(''cat'', 1), (''sat'', 1), (''mat'', 1)])"
  "analysisOf exampleTables ''I ran, and she jumped because it was fun.''
     (resultWith 9 1 1 (0, 0, 0, 1) [(''ran'', 1), (''jumped'', 1), (''fun'', 1)])"
  by code_simp+

text \<open>A text of whitespace only has no paragraph: the modelled counts are zero and
  the frequency table is empty.\<close>

lemma splitLines_blank: "list_all isSpace t \<Longrightarrow> list_all isBlank (splitLines t)"
  by (induction t) (auto simp: isBlank_def split: list.splits)

lemma splitParagraphs_blank: "list_all isBlank ls \<Longrightarrow> splitParagraphs [] ls = []"
  by (induction ls) auto

lemma segment_blank: "list_all isSpace t \<Longrightarrow> segment tb t = []"
  by (simp add: segment_def splitLines_blank splitParagraphs_blank)

lemma analysis_of_blank:
  assumes "list_all isSpace t" and "analysisOf tb t r"
  shows "wordCount r = Fin 0 \<and> paragraphCount r = Fin 0 \<and> sentenceCount r = Fin 0 \<and>
         wordFrequency r = [] \<and>
         sentenceStructure r =
           \<lparr>simple = Fin 0, compound = Fin 0, complex = Fin 0, compoundComplex = Fin 0\<rparr>"
  using assms
  by (simp add: analysisOf_def allWords_def allSentences_def segment_blank countNum_def
      rankWords_def countWords_def)

section \<open>The sentence-structure counts\<close>

lemma structure_partition:
  "length (filter (isSimple tb) ss) + length (filter (isCompound tb) ss) +
   length (filter (isComplex tb) ss) + length (filter (isCompoundComplex tb) ss) = length ss"
proof (induction ss)
  case Nil
  show ?case by simp
next
  case (Cons s ss)
  have one: "1 \<le> independentClauses s"
    by (simp add: independentClauses_def)
  consider (a) "independentClauses s = 1" "dependentClauses tb s = 0"
    | (b) "2 \<le> independentClauses s" "dependentClauses tb s = 0"
    | (c) "independentClauses s = 1" "1 \<le> dependentClauses tb s"
    | (d) "2 \<le> independentClauses s" "1 \<le> dependentClauses tb s"
    using one by linarith
  then show ?case
  proof cases
    case a
    with Cons.IH show ?thesis
      by (simp add: isSimple_def isCompound_def isComplex_def isCompoundComplex_def)
  next
    case b
    with Cons.IH show ?thesis
      by (simp add: isSimple_def isCompound_def isComplex_def isCompoundComplex_def)
  next
    case c
    with Cons.IH show ?thesis
      by (simp add: isSimple_def isCompound_def isComplex_def isCompoundComplex_def)
  next
    case d
    with Cons.IH show ?thesis
      by (simp add: isSimple_def isCompound_def isComplex_def isCompoundComplex_def)
  qed
qed

text \<open>
  C1. For every text, the four sentence-structure counts of the engine's result add up
  to its sentence count: \<open>simple + compound + complex + compoundComplex =
  sentenceCount\<close>, all five being finite numbers.
\<close>

theorem structure_counts_sum:
  assumes "analysisOf tb t r"
  shows "val (simple (sentenceStructure r)) + val (compound (sentenceStructure r)) +
         val (complex (sentenceStructure r)) + val (compoundComplex (sentenceStructure r)) =
         val (sentenceCount r) \<and>
         isFinite (simple (sentenceStructure r)) \<and> isFinite (compound (sentenceStructure r)) \<and>
         isFinite (complex (sentenceStructure r)) \<and>
         isFinite (compoundComplex (sentenceStructure r)) \<and> isFinite (sentenceCount r)"
proof -
  let ?ss = "allSentences tb t"
  have "(of_nat (length (filter (isSimple tb) ?ss)) :: rat) +
        of_nat (length (filter (isCompound tb) ?ss)) +
        of_nat (length (filter (isComplex tb) ?ss)) +
        of_nat (length (filter (isCompoundComplex tb) ?ss)) = of_nat (length ?ss)"
    using structure_partition [of tb ?ss] by (metis of_nat_add)
  with assms show ?thesis
    by (simp add: analysisOf_def countNum_def val_def isFinite_def)
qed

theorem structure_counts_sum_witness:
  "analysisOf exampleTables clauseText clauseResult \<and>
   val (simple (sentenceStructure clauseResult)) +
   val (compound (sentenceStructure clauseResult)) +
   val (complex (sentenceStructure clauseResult)) +
   val (compoundComplex (sentenceStructure clauseResult)) = val (sentenceCount clauseResult) \<and>
   compoundComplex (sentenceStructure clauseResult) = Fin 1 \<and>
   sentenceCount clauseResult = Fin 2"
proof -
  have h: "analysisOf exampleTables clauseText clauseResult"
    by code_simp
  show ?thesis
    using h structure_counts_sum [OF h]
    by (simp add: clauseResult_def resultWith_def countNum_def)
qed

subsection \<open>The same in the arithmetic of the language\<close>

text \<open>A text has at most as many sentences as characters.\<close>

lemma splitSentences_size:
  "sum_list (map length (splitSentences tb seen cur rest)) \<le> length cur + length rest"
proof (induction rest arbitrary: seen cur)
  case Nil
  show ?case by simp
next
  case (Cons c cs)
  show ?case
  proof (cases "isBoundary tb seen c cs")
    case True
    with Cons [of "c # seen" "[]"] show ?thesis by simp
  next
    case False
    with Cons [of "c # seen" "c # cur"] show ?thesis by simp
  qed
qed

lemma nonblank_count:
  "length (filter (\<lambda>s. \<not> isBlank s) xs) \<le> sum_list (map length xs)"
proof (induction xs)
  case Nil
  show ?case by simp
next
  case (Cons x xs)
  have "\<not> isBlank x \<Longrightarrow> 1 \<le> length x"
    by (cases x) (simp_all add: isBlank_def)
  with Cons show ?case by auto
qed

lemma sentencesOf_count: "length (sentencesOf tb p) \<le> length p"
  using nonblank_count [of "splitSentences tb [] [] p"] splitSentences_size [of tb "[]" "[]" p]
  by (simp add: sentencesOf_def)

lemma splitLines_size: "sum_list (map (\<lambda>l. Suc (length l)) (splitLines t)) = Suc (length t)"
  by (induction t) (auto split: list.splits)

lemma splitParagraphs_size:
  "sum_list (map length (splitParagraphs cur ls)) \<le>
     (if cur = [] then sum_list (map (\<lambda>l. Suc (length l)) ls) - 1
      else length cur + sum_list (map (\<lambda>l. Suc (length l)) ls))"
proof (induction ls arbitrary: cur)
  case Nil
  show ?case by simp
next
  case (Cons l ls)
  show ?case
  proof (cases "isBlank l")
    case True
    with Cons [of "[]"] show ?thesis by auto
  next
    case False
    then have "l \<noteq> []" by (auto simp: isBlank_def)
    with False Cons [of "if cur = [] then l else cur @ [CHR 0x0A] @ l"] show ?thesis
      by (auto split: if_splits)
  qed
qed

lemma allSentences_count: "length (allSentences tb t) \<le> length t"
proof -
  let ?ps = "splitParagraphs [] (splitLines t)"
  have "length (allSentences tb t) = sum_list (map (\<lambda>p. length (sentencesOf tb p)) ?ps)"
    by (simp add: allSentences_def segment_def length_concat comp_def)
  also have "\<dots> \<le> sum_list (map length ?ps)"
    by (rule sum_list_mono) (rule sentencesOf_count)
  also have "\<dots> \<le> length t"
    using splitParagraphs_size [of "[]" "splitLines t"] by (simp add: splitLines_size)
  finally show ?thesis .
qed

text \<open>Below \<open>2 ^ 53\<close> the sum of two counts is exact, so for a text of fewer than
  \<open>2 ^ 53\<close> characters the sum of the four counts, added as numbers of the language,
  is strictly equal to the sentence count.\<close>

lemma js_add_counts:
  assumes "a + b < 2 ^ 53"
  shows "js_add (countNum a) (countNum b) = countNum (a + b)"
proof (cases "a + b = 0")
  case True
  then show ?thesis by (simp add: js_add_def countNum_def isFinite_def val_def)
next
  case False
  have "\<bar>int (a + b)\<bar> < 2 ^ 53" using assms by (simp flip: of_nat_less_iff [where ?'a = int])
  from num_int_exact [OF this] have "num (of_nat a + of_nat b) = Fin (of_nat a + of_nat b)"
    by simp
  moreover have "(of_nat a :: rat) + of_nat b \<noteq> 0"
    using False by (simp flip: of_nat_add)
  ultimately show ?thesis
    by (simp add: js_add_def countNum_def isFinite_def val_def)
qed

lemma structure_counts_sum_js:
  assumes "analysisOf tb t r" and "length t < 2 ^ 53"
  shows "js_strict_eq
           (js_add (js_add (js_add (simple (sentenceStructure r)) (compound (sentenceStructure r)))
                      (complex (sentenceStructure r)))
              (compoundComplex (sentenceStructure r)))
           (sentenceCount r)"
proof -
  let ?ss = "allSentences tb t"
  let ?a = "length (filter (isSimple tb) ?ss)" and ?b = "length (filter (isCompound tb) ?ss)"
  let ?c = "length (filter (isComplex tb) ?ss)"
  let ?d = "length (filter (isCompoundComplex tb) ?ss)"
  have total: "?a + ?b + ?c + ?d = length ?ss" by (rule structure_partition)
  have small: "length ?ss < 2 ^ 53"
    using allSentences_count [of tb t] assms(2) by simp
  have "js_add (js_add (js_add (countNum ?a) (countNum ?b)) (countNum ?c)) (countNum ?d) =
        countNum (length ?ss)"
    using total small by (simp add: js_add_counts)
  with assms(1) show ?thesis
    by (simp add: analysisOf_def js_strict_eq_def countNum_def isFinite_def)
qed

section \<open>The ranking of the frequency table\<close>

subsection \<open>First occurrences\<close>

lemma firstIndex_less: "x \<in> set xs \<longleftrightarrow> firstIndex x xs < length xs"
  by (induction xs) auto

lemma firstIndex_append_in: "x \<in> set xs \<Longrightarrow> firstIndex x (xs @ ys) = firstIndex x xs"
  by (induction xs) auto

lemma firstIndex_append_new: "x \<notin> set xs \<Longrightarrow> firstIndex x (xs @ [x]) = length xs"
  by (induction xs) auto

lemma firstIndex_filter:
  assumes "x \<in> set (filter P ws)" "y \<in> set (filter P ws)"
  shows "firstIndex x (filter P ws) < firstIndex y (filter P ws) \<longleftrightarrow>
         firstIndex x ws < firstIndex y ws"
  using assms by (induction ws) auto

lemma count_list_filter: "P v \<Longrightarrow> count_list (filter P ws) v = count_list ws v"
  by (induction ws) auto

subsection \<open>The table of counts\<close>

lemma bump_keys:
  "map fst (bump w es) = (if w \<in> fst ` set es then map fst es else map fst es @ [w])"
  by (induction w es rule: bump.induct) auto

lemma bump_entry:
  assumes "distinct (map fst es)" and "(v, c) \<in> set (bump w es)"
  shows "(v \<noteq> w \<and> (v, c) \<in> set es) \<or>
         (v = w \<and> (\<exists>k. (w, k) \<in> set es \<and> c = Suc k)) \<or>
         (v = w \<and> w \<notin> fst ` set es \<and> c = 1)"
  using assms
proof (induction w es rule: bump.induct)
  case (1 w)
  then show ?case by simp
next
  case (2 w u k es)
  show ?case
  proof (cases "u = w")
    case True
    with "2.prems" show ?thesis by (auto simp: image_iff)
  next
    case False
    with "2.prems" have "(v, c) = (u, k) \<or> (v, c) \<in> set (bump w es)" by simp
    then show ?thesis
    proof
      assume "(v, c) = (u, k)"
      with False show ?thesis by simp
    next
      assume "(v, c) \<in> set (bump w es)"
      with "2.IH" False "2.prems"(1) show ?thesis by auto
    qed
  qed
qed

lemma countWords_snoc: "countWords (ws @ [w]) = bump w (countWords ws)"
  by (simp add: countWords_def)

lemma countWords_keys_set: "fst ` set (countWords ws) = set ws"
proof (induction ws rule: rev_induct)
  case Nil
  show ?case by (simp add: countWords_def)
next
  case (snoc w ws)
  have "set (map fst (bump w (countWords ws))) = insert w (set ws)"
    using snoc by (auto simp: bump_keys)
  then show ?case
    by (simp add: countWords_snoc)
qed

lemma countWords_keys_distinct: "distinct (map fst (countWords ws))"
proof (induction ws rule: rev_induct)
  case Nil
  show ?case by (simp add: countWords_def)
next
  case (snoc w ws)
  then show ?case
    by (simp add: countWords_snoc bump_keys)
qed


lemma countWords_count:
  "(v, c) \<in> set (countWords ws) \<Longrightarrow> c = count_list ws v"
proof (induction ws arbitrary: v c rule: rev_induct)
  case Nil
  then show ?case by (simp add: countWords_def)
next
  case (snoc w ws)
  from snoc.prems have "(v, c) \<in> set (bump w (countWords ws))"
    by (simp add: countWords_snoc)
  then consider (old) "v \<noteq> w" "(v, c) \<in> set (countWords ws)"
    | (more) k where "v = w" "(w, k) \<in> set (countWords ws)" "c = Suc k"
    | (new) "v = w" "w \<notin> fst ` set (countWords ws)" "c = 1"
    using bump_entry [OF countWords_keys_distinct] by blast
  then show ?case
  proof cases
    case old
    then show ?thesis using snoc.IH by simp
  next
    case more
    then show ?thesis using snoc.IH by simp
  next
    case new
    then have "w \<notin> set ws" using countWords_keys_set [of ws] by simp
    then have "count_list ws w = 0" by simp
    with new show ?thesis by simp
  qed
qed

lemma countWords_keys_order:
  "sorted_wrt (\<lambda>a b. firstIndex a ws < firstIndex b ws) (map fst (countWords ws))"
proof (induction ws rule: rev_induct)
  case Nil
  show ?case by (simp add: countWords_def)
next
  case (snoc w ws)
  let ?ks = "map fst (countWords ws)"
  have keys: "set ?ks = set ws"
    using countWords_keys_set [of ws] by simp
  have old: "sorted_wrt (\<lambda>a b. firstIndex a (ws @ [w]) < firstIndex b (ws @ [w])) ?ks"
  proof (rule sorted_wrt_mono_rel [OF _ snoc.IH])
    fix a b
    assume "a \<in> set ?ks" "b \<in> set ?ks" "firstIndex a ws < firstIndex b ws"
    then show "firstIndex a (ws @ [w]) < firstIndex b (ws @ [w])"
      unfolding keys by (simp add: firstIndex_append_in)
  qed
  show ?case
  proof (cases "w \<in> set ws")
    case True
    then show ?thesis
      using old by (simp add: countWords_snoc bump_keys countWords_keys_set)
  next
    case False
    have "firstIndex a (ws @ [w]) < firstIndex w (ws @ [w])" if "a \<in> set ?ks" for a
    proof -
      from that have "a \<in> set ws" unfolding keys .
      then show ?thesis
        using False by (simp add: firstIndex_append_in firstIndex_append_new flip: firstIndex_less)
    qed
    with False old show ?thesis
      unfolding countWords_snoc bump_keys countWords_keys_set
      by (simp add: sorted_wrt_append)
  qed
qed


subsection \<open>Sorting by a key keeps the order among equal keys\<close>

lemma insort_key_lex:
  assumes "sorted_wrt (\<lambda>a b. f a < f b \<or> (f a = f b \<and> R a b)) ys"
    and "\<forall>y \<in> set ys. R x y"
  shows "sorted_wrt (\<lambda>a b. f a < f b \<or> (f a = f b \<and> R a b)) (insort_key f x ys)"
  using assms
proof (induction ys)
  case Nil
  show ?case by simp
next
  case (Cons y ys)
  show ?case
  proof (cases "f x \<le> f y")
    case True
    have "f x < f z \<or> (f x = f z \<and> R x z)" if "z \<in> set (y # ys)" for z
    proof -
      have "f y \<le> f z" using Cons.prems(1) that by auto
      with True have "f x \<le> f z" by simp
      moreover have "R x z" using Cons.prems(2) that by blast
      ultimately show ?thesis by auto
    qed
    with True Cons.prems(1) show ?thesis by simp
  next
    case False
    have "sorted_wrt (\<lambda>a b. f a < f b \<or> (f a = f b \<and> R a b)) (insort_key f x ys)"
      using Cons by simp
    moreover have "f y < f z \<or> (f y = f z \<and> R y z)" if "z \<in> set (insort_key f x ys)" for z
      using that False Cons.prems(1) by (auto simp: set_insort_key)
    ultimately show ?thesis using False by simp
  qed
qed

lemma sort_key_lex:
  assumes "sorted_wrt R xs"
  shows "sorted_wrt (\<lambda>a b. f a < f b \<or> (f a = f b \<and> R a b)) (sort_key f xs)"
  using assms
proof (induction xs)
  case Nil
  show ?case by simp
next
  case (Cons x xs)
  then show ?case
    by (simp add: insort_key_lex)
qed


subsection \<open>The ranked table\<close>

lemma rankWords_entries:
  assumes "e \<in> set (rankWords tb ws)"
  shows "fst e \<in> set ws \<and> fst e \<notin> set (stopwords tb) \<and> snd e = count_list ws (fst e)"
proof -
  let ?ws = "filter (\<lambda>w. w \<notin> set (stopwords tb)) ws"
  from assms have "e \<in> set (countWords ?ws)"
    unfolding rankWords_def by (auto dest: in_set_takeD)
  then have e: "(fst e, snd e) \<in> set (countWords ?ws)" by simp
  then have "fst e \<in> fst ` set (countWords ?ws)" by (metis fst_conv image_eqI)
  then have k: "fst e \<in> set ?ws" unfolding countWords_keys_set .
  from e have "snd e = count_list ?ws (fst e)" by (rule countWords_count)
  with k show ?thesis by (simp add: count_list_filter)
qed

lemma rankWords_sorted:
  "sorted_wrt (\<lambda>a b. snd b < snd a \<or>
       (snd a = snd b \<and> firstIndex (fst a) ws < firstIndex (fst b) ws)) (rankWords tb ws)"
proof -
  let ?ws = "filter (\<lambda>w. w \<notin> set (stopwords tb)) ws"
  let ?R = "\<lambda>a b :: string \<times> nat. firstIndex (fst a) ?ws < firstIndex (fst b) ?ws"
  let ?f = "\<lambda>e :: string \<times> nat. - int (snd e)"
  let ?rk = "rankWords tb ws"
  have "sorted_wrt ?R (countWords ?ws)"
    using countWords_keys_order [of ?ws] by (simp add: sorted_wrt_map)
  then have "sorted_wrt (\<lambda>a b. ?f a < ?f b \<or> (?f a = ?f b \<and> ?R a b))
      (sort_key ?f (countWords ?ws))"
    by (rule sort_key_lex)
  then have lex: "sorted_wrt (\<lambda>a b. ?f a < ?f b \<or> (?f a = ?f b \<and> ?R a b)) ?rk"
    unfolding rankWords_def by (rule sorted_wrt_take)
  show ?thesis
  proof (rule sorted_wrt_mono_rel [OF _ lex])
    fix a b
    assume a: "a \<in> set ?rk" and b: "b \<in> set ?rk"
      and ab: "?f a < ?f b \<or> (?f a = ?f b \<and> ?R a b)"
    have "fst a \<in> set ?ws" "fst b \<in> set ?ws"
      using rankWords_entries [OF a] rankWords_entries [OF b] by simp_all
    then have "?R a b \<longleftrightarrow> firstIndex (fst a) ws < firstIndex (fst b) ws"
      by (rule firstIndex_filter)
    with ab show "snd b < snd a \<or>
        (snd a = snd b \<and> firstIndex (fst a) ws < firstIndex (fst b) ws)"
      by auto
  qed
qed

text \<open>
  C5. For every text, the frequency table of the engine's result has at most N
  entries; of two entries, the earlier has the greater count, or the same count and
  a word whose first occurrence in the text comes before that of the later entry's
  word; and every entry holds a word of the text that is no stopword, with the
  number of its occurrences.
\<close>

theorem wordFrequency_order:
  assumes "analysisOf tb t r"
  shows "length (wordFrequency r) \<le> topN tb \<and>
    (\<forall>i j. i < j \<and> j < length (wordFrequency r) \<longrightarrow>
       val (count (wordFrequency r ! j)) < val (count (wordFrequency r ! i)) \<or>
       (count (wordFrequency r ! i) = count (wordFrequency r ! j) \<and>
        firstIndex (word (wordFrequency r ! i)) (allWords tb t) <
        firstIndex (word (wordFrequency r ! j)) (allWords tb t))) \<and>
    (\<forall>e \<in> set (wordFrequency r).
       word e \<in> set (allWords tb t) \<and> word e \<notin> set (stopwords tb) \<and>
       count e = countNum (count_list (allWords tb t) (word e)))"
proof -
  let ?ws = "allWords tb t"
  let ?rk = "rankWords tb ?ws"
  have wf: "wordFrequency r = map (\<lambda>e. \<lparr>word = fst e, count = countNum (snd e)\<rparr>) ?rk"
    using assms by (simp add: analysisOf_def)
  have len: "length (wordFrequency r) \<le> topN tb"
    by (simp add: wf rankWords_def)
  have ord: "val (count (wordFrequency r ! j)) < val (count (wordFrequency r ! i)) \<or>
       (count (wordFrequency r ! i) = count (wordFrequency r ! j) \<and>
        firstIndex (word (wordFrequency r ! i)) ?ws < firstIndex (word (wordFrequency r ! j)) ?ws)"
    if "i < j" "j < length (wordFrequency r)" for i j
  proof -
    from that have j: "j < length ?rk" and i: "i < length ?rk" by (simp_all add: wf)
    have "snd (?rk ! j) < snd (?rk ! i) \<or>
        (snd (?rk ! i) = snd (?rk ! j) \<and>
         firstIndex (fst (?rk ! i)) ?ws < firstIndex (fst (?rk ! j)) ?ws)"
      using sorted_wrt_nth_less [OF rankWords_sorted that(1) j] .
    then show ?thesis
      using i j by (auto simp: wf countNum_def val_def)
  qed
  have ent: "word e \<in> set ?ws \<and> word e \<notin> set (stopwords tb) \<and>
       count e = countNum (count_list ?ws (word e))"
    if "e \<in> set (wordFrequency r)" for e
  proof -
    from that obtain p where p: "p \<in> set ?rk" and e: "e = \<lparr>word = fst p, count = countNum (snd p)\<rparr>"
      by (auto simp: wf)
    from rankWords_entries [OF p] e show ?thesis by simp
  qed
  from len ord ent show ?thesis by blast
qed

theorem wordFrequency_order_witness:
  "analysisOf exampleTables rankText rankResult \<and>
   length (wordFrequency rankResult) \<le> topN exampleTables \<and>
   map word (wordFrequency rankResult) = [''cat'', ''saw'', ''dog''] \<and>
   count (wordFrequency rankResult ! 0) = count (wordFrequency rankResult ! 1) \<and>
   firstIndex ''cat'' (allWords exampleTables rankText) <
   firstIndex ''saw'' (allWords exampleTables rankText)"
proof -
  have h: "analysisOf exampleTables rankText rankResult"
    by code_simp
  have fq: "wordFrequency rankResult =
      [\<lparr>word = ''cat'', count = Fin 2\<rparr>, \<lparr>word = ''saw'', count = Fin 2\<rparr>,
       \<lparr>word = ''dog'', count = Fin 2\<rparr>]"
    by (simp add: rankResult_def resultWith_def countNum_def)
  have "(0::nat) < 1 \<and> 1 < length (wordFrequency rankResult)"
    by (simp add: fq)
  with wordFrequency_order [OF h]
  have "val (count (wordFrequency rankResult ! 1)) < val (count (wordFrequency rankResult ! 0)) \<or>
       (count (wordFrequency rankResult ! 0) = count (wordFrequency rankResult ! 1) \<and>
        firstIndex (word (wordFrequency rankResult ! 0)) (allWords exampleTables rankText) <
        firstIndex (word (wordFrequency rankResult ! 1)) (allWords exampleTables rankText))"
    by blast
  then have "firstIndex ''cat'' (allWords exampleTables rankText) <
      firstIndex ''saw'' (allWords exampleTables rankText)"
    by (simp add: fq)
  with h wordFrequency_order [OF h] show ?thesis
    by (simp add: fq)
qed

end
